theory Spec2Isabelle
  imports Complex_Main "HOL-Library.Word"
begin

unbundle bit_operations_syntax

section \<open>Bytes, integers and errors\<close>

text \<open>
  The elements of a Python \<^verbatim>\<open>bytes\<close> or \<^verbatim>\<open>bytearray\<close> object are the integers
  0..255: they are modelled as 8-bit words. Python's own integers (a single-byte key, the
  rotation width \<^verbatim>\<open>bits\<close>, a requested length) are unbounded and are modelled as \<open>int\<close>;
  \<open>AND\<close>, \<open>OR\<close>, \<open>XOR\<close>, \<open>push_bit\<close> and \<open>drop_bit\<close> on \<open>int\<close> are the two's
  complement operations of Python's \<^verbatim>\<open>&\<close>, \<^verbatim>\<open>|\<close>, \<^verbatim>\<open>^\<close>, \<^verbatim>\<open><<\<close> and \<^verbatim>\<open>>>\<close>.

  Every exception the modelled code can raise is a value. \<open>MungerException\<close> is the
  typed error that \<^verbatim>\<open>Munger\<close> raises for invalid input (\<^verbatim>\<open>Random\<close> defines and raises
  none); the others are the interpreter's own.
\<close>

type_synonym byte = "8 word"

datatype error =
    MungerException
  | ValueError
  | ZeroDivisionError
  | UnboundLocalError

text \<open>
  Storing an integer into a \<^verbatim>\<open>bytearray\<close> slot, or building \<^verbatim>\<open>bytes\<close> from a list of
  integers, raises \<^verbatim>\<open>ValueError\<close> unless the integer is in \<^verbatim>\<open>range(0, 256)\<close>.
\<close>

definition to_byte :: "int \<Rightarrow> error + byte" where
  "to_byte v = (if 0 \<le> v \<and> v \<le> 255 then Inr (word_of_int v) else Inl ValueError)"

fun bytes_of_ints :: "int list \<Rightarrow> error + byte list" where
  "bytes_of_ints [] = Inr []"
| "bytes_of_ints (v # vs) =
     (case to_byte v of
        Inl e \<Rightarrow> Inl e
      | Inr b \<Rightarrow> (case bytes_of_ints vs of Inl e \<Rightarrow> Inl e | Inr bs \<Rightarrow> Inr (b # bs)))"

section \<open>Munger: the single-byte transforms\<close>

text \<open>
  The single-byte transforms are modelled on the contents of the data buffer: the claims
  about them concern the returned contents only. (\<^verbatim>\<open>rolling_xor\<close> and \<^verbatim>\<open>rotating_xor\<close>
  write into a \<^verbatim>\<open>bytearray\<close> argument as the multi-byte transforms below do.)
\<close>

subsection \<open>\<^verbatim>\<open>Munger.xor\<close>\<close>

text \<open>
  \<^verbatim>\<open>
  if not len(data): raise MungerException('Data must not be zero length.')
  if key > 256 or key < 0: raise MungerException('Key must be 0-255')
  table = bytes([key ^ i for i in range(0,256)])
  return data.translate(table)
  \<close>
\<close>

definition xor_table :: "int \<Rightarrow> error + byte list" where
  "xor_table key = bytes_of_ints (map (\<lambda>i. key XOR i) [0..255])"

definition xor_munger :: "byte list \<Rightarrow> int \<Rightarrow> error + byte list" where
  "xor_munger data key =
     (if length data = 0 then Inl MungerException
      else if key > 256 \<or> key < 0 then Inl MungerException
      else (case xor_table key of
              Inl e \<Rightarrow> Inl e
            | Inr table \<Rightarrow> Inr (map (\<lambda>b. table ! unat b) data)))"

subsection \<open>\<^verbatim>\<open>Munger.rolling_xor\<close>\<close>

text \<open>
  \<^verbatim>\<open>
  for i in range(len(data)):
      new_k = data[i]
      data[i] = data[i] ^ k
      k = new_k
  \<close>
  The local variable \<^verbatim>\<open>k\<close> is bound nowhere before the loop: it is \<open>None\<close> until the
  first assignment, and reading it unbound raises \<^verbatim>\<open>UnboundLocalError\<close>.
\<close>

fun rolling_loop :: "byte list \<Rightarrow> byte option \<Rightarrow> error + byte list" where
  "rolling_loop [] k = Inr []"
| "rolling_loop (d # ds) k =
     (case k of
        None \<Rightarrow> Inl UnboundLocalError
      | Some kv \<Rightarrow>
          (case rolling_loop ds (Some d) of
             Inl e \<Rightarrow> Inl e
           | Inr out \<Rightarrow> Inr ((d XOR kv) # out)))"

definition rolling_xor :: "byte list \<Rightarrow> int \<Rightarrow> error + byte list" where
  "rolling_xor data key =
     (if length data = 0 then Inl MungerException
      else if key < 0 \<or> key > 255 then Inl MungerException
      else rolling_loop data None)"

subsection \<open>\<^verbatim>\<open>Munger.rotating_xor\<close>\<close>

text \<open>
  The key update \<^verbatim>\<open>(key >> bits) | (key << (8 - bits) & 0xFF)\<close>. Python's shifts bind
  tighter than \<^verbatim>\<open>&\<close>, which binds tighter than \<^verbatim>\<open>|\<close>; a negative shift count raises
  \<^verbatim>\<open>ValueError\<close>, and \<^verbatim>\<open>key >> bits\<close> is evaluated first.
\<close>

definition rotate_key :: "int \<Rightarrow> int \<Rightarrow> error + int" where
  "rotate_key key bits =
     (if bits < 0 then Inl ValueError
      else if 8 - bits < 0 then Inl ValueError
      else Inr (drop_bit (nat bits) key OR (push_bit (nat (8 - bits)) key AND 255)))"

text \<open>
  \<^verbatim>\<open>
  for i in range(len(data)):
      data[i] = data[i] ^ key
      key = ((key >> bits) | (key << (8 - bits) & 0xFF))
  \<close>
\<close>

fun rotating_loop :: "byte list \<Rightarrow> int \<Rightarrow> int \<Rightarrow> error + byte list" where
  "rotating_loop [] key bits = Inr []"
| "rotating_loop (d # ds) key bits =
     (case to_byte (uint d XOR key) of
        Inl e \<Rightarrow> Inl e
      | Inr b \<Rightarrow>
          (case rotate_key key bits of
             Inl e \<Rightarrow> Inl e
           | Inr key' \<Rightarrow>
               (case rotating_loop ds key' bits of
                  Inl e \<Rightarrow> Inl e
                | Inr out \<Rightarrow> Inr (b # out))))"

definition rotating_xor :: "byte list \<Rightarrow> int \<Rightarrow> int \<Rightarrow> error + byte list" where
  "rotating_xor data key bits =
     (if length data = 0 then Inl MungerException
      else if key < 0 \<or> key > 255 then Inl MungerException
      else rotating_loop data key bits)"

text \<open>
  The schedule in the specification's words: \<open>rotate_right_8bit v b\<close> is
  \<open>(v >> b) | ((v << (8 - b)) & 0xFF)\<close>, the key used at position \<open>i\<close> is the seed
  rotated \<open>i\<close> times, and \<open>out[i] = in[i] XOR key\<close>.
\<close>

definition rotate_right_8bit :: "int \<Rightarrow> nat \<Rightarrow> int" where
  "rotate_right_8bit v b = drop_bit b v OR (push_bit (8 - b) v AND 255)"

definition rotating_schedule :: "byte list \<Rightarrow> int \<Rightarrow> nat \<Rightarrow> byte list" where
  "rotating_schedule data key b =
     map (\<lambda>i. data ! i XOR word_of_int (((\<lambda>v. rotate_right_8bit v b) ^^ i) key)) [0..<length data]"


section \<open>Random: constrained random bytes\<close>

subsection \<open>The entropy source\<close>

text \<open>
  \<^verbatim>\<open>os.urandom\<close> is the one source of randomness. It is modelled as a tape of bytes that
  each call consumes from the front: the call returns the bytes read and the rest of the
  tape, so that two calls need not return the same bytes. A negative count raises
  \<^verbatim>\<open>ValueError\<close>.
\<close>

type_synonym entropy = "nat \<Rightarrow> byte"

definition urandom :: "int \<Rightarrow> entropy \<Rightarrow> (error + byte list) \<times> entropy" where
  "urandom n e =
     (if n < 0 then (Inl ValueError, e)
      else (Inr (map e [0..<nat n]), \<lambda>i. e (nat n + i)))"

definition zero_entropy :: entropy where
  "zero_entropy = (\<lambda>i. 0)"

definition counting_entropy :: entropy where
  "counting_entropy = (\<lambda>i. of_nat i)"

subsection \<open>\<^verbatim>\<open>Random.bytes\<close>\<close>

text \<open>
  \<^verbatim>\<open>
  ret = b''
  avoid = bytes(set(avoid))
  while len(ret) != length:
      data = os.urandom(length - len(ret)).translate(None, avoid)
      ret += data
  return ret
  \<close>
  \<^verbatim>\<open>translate(None, avoid)\<close> deletes every byte that occurs in \<^verbatim>\<open>avoid\<close>, in whatever
  order the set lists them. The loop has no bound: a run that never leaves it is the
  value \<open>None\<close>.
\<close>

partial_function (option) bytes_loop ::
  "int \<Rightarrow> byte list \<Rightarrow> byte list \<Rightarrow> entropy \<Rightarrow> ((error + byte list) \<times> entropy) option" where
  "bytes_loop n avoid ret e =
     (if int (length ret) \<noteq> n then
        (case urandom (n - int (length ret)) e of
           (Inl err, e') \<Rightarrow> Some (Inl err, e')
         | (Inr raw, e') \<Rightarrow> bytes_loop n avoid (ret @ filter (\<lambda>b. b \<notin> set avoid) raw) e')
      else Some (Inr ret, e))"

declare bytes_loop.simps [code]

definition bytes :: "int \<Rightarrow> byte list \<Rightarrow> entropy \<Rightarrow> ((error + byte list) \<times> entropy) option" where
  "bytes n avoid e = bytes_loop n avoid [] e"

definition every_byte :: "byte list" where
  "every_byte = map of_nat [0..<256]"

subsection \<open>\<^verbatim>\<open>Random.sample\<close>\<close>

text \<open>
  \<^verbatim>\<open>bytearray(set(sequence))\<close> and \<^verbatim>\<open>bytes(set(avoid))\<close> list the distinct elements in the
  iteration order of a Python set, which the language leaves open. The order is a
  parameter \<open>enum\<close> of the model; \<open>set_iteration enum\<close> says that it lists every element
  exactly once.
\<close>

definition set_iteration :: "(byte list \<Rightarrow> byte list) \<Rightarrow> bool" where
  "set_iteration enum \<longleftrightarrow> (\<forall>xs. distinct (enum xs) \<and> set (enum xs) = set xs)"

text \<open>
  \<^verbatim>\<open>
  for a in avoid:
      if a in sequence:
          sequence.pop(sequence.find(a))
  \<close>
  \<^verbatim>\<open>find\<close> gives the index of the first occurrence, and \<^verbatim>\<open>pop\<close> removes that element.
\<close>

definition drop_avoided :: "byte list \<Rightarrow> byte list \<Rightarrow> byte list" where
  "drop_avoided avoid sequence =
     fold (\<lambda>a s. if a \<in> set s then remove1 a s else s) avoid sequence"

text \<open>
  \<^verbatim>\<open>bytes([sequence[x % len(sequence)] for x in os.urandom(length)])\<close>: the modulo by the
  length of an empty sequence raises \<^verbatim>\<open>ZeroDivisionError\<close> at the first entropy byte; with
  no entropy byte nothing is evaluated.
\<close>

fun pick :: "byte list \<Rightarrow> byte list \<Rightarrow> error + byte list" where
  "pick sequence [] = Inr []"
| "pick sequence (x # xs) =
     (if length sequence = 0 then Inl ZeroDivisionError
      else (case pick sequence xs of
              Inl e \<Rightarrow> Inl e
            | Inr out \<Rightarrow> Inr (sequence ! (unat x mod length sequence) # out)))"

definition sample ::
  "(byte list \<Rightarrow> byte list) \<Rightarrow> byte list \<Rightarrow> int \<Rightarrow> byte list \<Rightarrow> entropy
     \<Rightarrow> (error + byte list) \<times> entropy" where
  "sample enum sequence n avoid e =
     (let sequence' = drop_avoided (enum avoid) (enum sequence)
      in (case urandom n e of
            (Inl err, e') \<Rightarrow> (Inl err, e')
          | (Inr raw, e') \<Rightarrow> (pick sequence' raw, e')))"

subsection \<open>\<^verbatim>\<open>binascii\<close>: Base64\<close>

text \<open>
  \<^verbatim>\<open>binascii.b2a_base64\<close> and \<^verbatim>\<open>binascii.a2b_base64\<close> belong to Python's standard
  library. They are modelled from RFC 4648: three bytes become four characters of the
  alphabet \<^verbatim>\<open>A-Z a-z 0-9 + /\<close>, a final group of one or two bytes is padded with
  \<^verbatim>\<open>=\<close>, and \<^verbatim>\<open>b2a_base64\<close> appends a newline. The decoder skips every character that is
  neither in the alphabet nor \<^verbatim>\<open>=\<close>, and is \<open>None\<close> where the padding is incorrect.
\<close>

definition b64_char :: "nat \<Rightarrow> byte" where
  "b64_char i =
     (if i < 26 then of_nat (65 + i)
      else if i < 52 then of_nat (97 + (i - 26))
      else if i < 62 then of_nat (48 + (i - 52))
      else if i = 62 then 43
      else 47)"

definition b64_value :: "byte \<Rightarrow> nat option" where
  "b64_value c =
     (let v = unat c in
      if 65 \<le> v \<and> v \<le> 90 then Some (v - 65)
      else if 97 \<le> v \<and> v \<le> 122 then Some (v - 97 + 26)
      else if 48 \<le> v \<and> v \<le> 57 then Some (v - 48 + 52)
      else if v = 43 then Some 62
      else if v = 47 then Some 63
      else None)"

fun b64_encode :: "byte list \<Rightarrow> byte list" where
  "b64_encode [] = []"
| "b64_encode [a] =
     (let x = unat a in [b64_char (x div 4), b64_char (x mod 4 * 16), 61, 61])"
| "b64_encode [a, b] =
     (let x = unat a; y = unat b
      in [b64_char (x div 4), b64_char (x mod 4 * 16 + y div 16), b64_char (y mod 16 * 4), 61])"
| "b64_encode (a # b # c # rest) =
     (let x = unat a; y = unat b; z = unat c
      in [b64_char (x div 4), b64_char (x mod 4 * 16 + y div 16),
          b64_char (y mod 16 * 4 + z div 64), b64_char (z mod 64)] @ b64_encode rest)"

definition b2a_base64 :: "byte list \<Rightarrow> byte list" where
  "b2a_base64 raw = b64_encode raw @ [10]"

fun b64_decode :: "byte list \<Rightarrow> byte list option" where
  "b64_decode [] = Some []"
| "b64_decode (a # b # c # d # rest) =
     (case (b64_value a, b64_value b) of
        (Some x, Some y) \<Rightarrow>
          (if c = 61 then
             (if d = 61 \<and> rest = [] then Some [of_nat (x * 4 + y div 16)] else None)
           else (case b64_value c of
                   None \<Rightarrow> None
                 | Some z \<Rightarrow>
                     (if d = 61 then
                        (if rest = []
                         then Some [of_nat (x * 4 + y div 16), of_nat (y mod 16 * 16 + z div 4)]
                         else None)
                      else (case b64_value d of
                              None \<Rightarrow> None
                            | Some w \<Rightarrow>
                                (case b64_decode rest of
                                   None \<Rightarrow> None
                                 | Some out \<Rightarrow>
                                     Some ([of_nat (x * 4 + y div 16),
                                            of_nat (y mod 16 * 16 + z div 4),
                                            of_nat (z mod 4 * 64 + w)] @ out))))))
      | _ \<Rightarrow> None)"
| "b64_decode _ = None"

definition b64_significant :: "byte \<Rightarrow> bool" where
  "b64_significant c \<longleftrightarrow> b64_value c \<noteq> None \<or> c = 61"

definition a2b_base64 :: "byte list \<Rightarrow> byte list option" where
  "a2b_base64 s = b64_decode (filter b64_significant s)"

subsection \<open>\<^verbatim>\<open>Random.base64\<close>\<close>

text \<open>
  \<^verbatim>\<open>
  if not decodable:
      return self.sample(bytes(range(48,58)) + bytes(range(65,91))
                         + bytes(range(97,123)) + b'+/', length, avoid)
  return binascii.b2a_base64(self.bytes(math.ceil(float(length) * (5.0/6.0))))
  \<close>
  The product is taken in exact rational arithmetic, which is what the double-precision
  product rounds up to for every length a buffer can have.
\<close>

definition base64_charset :: "byte list" where
  "base64_charset = map of_nat ([48..<58] @ [65..<91] @ [97..<123]) @ [43, 47]"

definition base64_raw_length :: "int \<Rightarrow> int" where
  "base64_raw_length n = \<lceil>(of_int n :: rat) * (5 / 6)\<rceil>"

definition base64 ::
  "(byte list \<Rightarrow> byte list) \<Rightarrow> int \<Rightarrow> byte list \<Rightarrow> bool \<Rightarrow> entropy
     \<Rightarrow> ((error + byte list) \<times> entropy) option" where
  "base64 enum n avoid decodable e =
     (if \<not> decodable then Some (sample enum base64_charset n avoid e)
      else (case bytes (base64_raw_length n) [] e of
              None \<Rightarrow> None
            | Some (Inl err, e') \<Rightarrow> Some (Inl err, e')
            | Some (Inr raw, e') \<Rightarrow> Some (Inr (b2a_base64 raw), e')))"

section \<open>Munger: the multi-byte transforms and the buffers they share with the caller\<close>

subsection \<open>A store of buffer objects\<close>

text \<open>
  The multi-byte transforms write into their arguments: a \<^verbatim>\<open>bytearray\<close> passed as data or
  as key is the caller's object and is changed in place, a \<^verbatim>\<open>bytes\<close> object is immutable
  and is copied first (\<^verbatim>\<open>bytearray(data)\<close>). What the caller sees afterwards depends
  on which object is which, so buffers live in a store and are passed by reference. A
  reference is the position of its object in the store; \<open>alloc\<close> appends a fresh object.
\<close>

datatype buffer = Bytes "byte list" | Bytearray "byte list"

fun octets :: "buffer \<Rightarrow> byte list" where
  "octets (Bytes xs) = xs"
| "octets (Bytearray xs) = xs"

fun is_bytes :: "buffer \<Rightarrow> bool" where
  "is_bytes (Bytes xs) = True"
| "is_bytes (Bytearray xs) = False"

type_synonym ref = nat
type_synonym store = "buffer list"

definition alloc :: "buffer \<Rightarrow> store \<Rightarrow> ref \<times> store" where
  "alloc b s = (length s, s @ [b])"

definition content :: "store \<Rightarrow> ref \<Rightarrow> byte list" where
  "content s r = octets (s ! r)"

text \<open>\<^verbatim>\<open>buf[i] = v\<close> on a \<^verbatim>\<open>bytearray\<close>: the object itself changes.\<close>

definition poke :: "store \<Rightarrow> ref \<Rightarrow> nat \<Rightarrow> byte \<Rightarrow> store" where
  "poke s r i v = s[r := Bytearray ((content s r)[i := v])]"

text \<open>\<^verbatim>\<open>if isinstance(x, bytes): x = bytearray(x)\<close>: a copy for \<^verbatim>\<open>bytes\<close>, the same object otherwise.\<close>

definition as_bytearray :: "store \<Rightarrow> ref \<Rightarrow> ref \<times> store" where
  "as_bytearray s r = (if is_bytes (s ! r) then alloc (Bytearray (content s r)) s else (r, s))"

text \<open>A slice \<^verbatim>\<open>x[a:b]\<close> is a new object of the type of \<^verbatim>\<open>x\<close>.\<close>

definition same_type :: "buffer \<Rightarrow> byte list \<Rightarrow> buffer" where
  "same_type b xs = (if is_bytes b then Bytes xs else Bytearray xs)"

subsection \<open>\<^verbatim>\<open>Munger.multi_byte_rolling_xor\<close>\<close>

text \<open>
  \<^verbatim>\<open>
  k = 0
  for i in range(len(data)):
      new_k = data[i]
      data[i] = data[i] ^ key[k]
      key[k] = new_k
      k += 1
      if k == len(key):
          k = 0
  return data
  \<close>
  The loop runs over the store; its last argument but one counts the iterations left.
\<close>

fun multi_byte_rolling_loop :: "ref \<Rightarrow> ref \<Rightarrow> nat \<Rightarrow> nat \<Rightarrow> nat \<Rightarrow> store \<Rightarrow> store" where
  "multi_byte_rolling_loop data key i k 0 s = s"
| "multi_byte_rolling_loop data key i k (Suc n) s =
     (let new_k = content s data ! i;
          s1 = poke s data i (content s data ! i XOR content s key ! k);
          s2 = poke s1 key k new_k;
          k' = (if k + 1 = length (content s2 key) then 0 else k + 1)
      in multi_byte_rolling_loop data key (i + 1) k' n s2)"

definition multi_byte_rolling_xor :: "store \<Rightarrow> ref \<Rightarrow> ref \<Rightarrow> store \<times> (error + ref)" where
  "multi_byte_rolling_xor s data key =
     (if length (content s data) = 0 then (s, Inl MungerException)
      else if length (content s key) = 0 then (s, Inl MungerException)
      else (let (d, s1) = as_bytearray s data;
                (k, s2) = as_bytearray s1 key
            in (multi_byte_rolling_loop d k 0 0 (length (content s2 d)) s2, Inr d)))"

subsection \<open>\<^verbatim>\<open>Munger.multi_byte_rotating_xor\<close>\<close>

text \<open>
  \<^verbatim>\<open>
  k = 0
  for i in range(len(data)):
      data[i] = data[i] ^ key[k]
      key[k] = ((key[k] >> bits) | (key[k] << (8 - bits) & 0xFF))
      k += 1
      if k == len(key):
          k = 0
  return data
  \<close>
  An exception leaves the loop with the store as it is at that point.
\<close>

fun multi_byte_rotating_loop ::
  "int \<Rightarrow> ref \<Rightarrow> ref \<Rightarrow> nat \<Rightarrow> nat \<Rightarrow> nat \<Rightarrow> store \<Rightarrow> store \<times> error option" where
  "multi_byte_rotating_loop bits data key i k 0 s = (s, None)"
| "multi_byte_rotating_loop bits data key i k (Suc n) s =
     (let s1 = poke s data i (content s data ! i XOR content s key ! k)
      in (case rotate_key (uint (content s1 key ! k)) bits of
            Inl e \<Rightarrow> (s1, Some e)
          | Inr v \<Rightarrow>
              (case to_byte v of
                 Inl e \<Rightarrow> (s1, Some e)
               | Inr b \<Rightarrow>
                   (let s2 = poke s1 key k b;
                        k' = (if k + 1 = length (content s2 key) then 0 else k + 1)
                    in multi_byte_rotating_loop bits data key (i + 1) k' n s2))))"

definition multi_byte_rotating_xor ::
  "store \<Rightarrow> ref \<Rightarrow> ref \<Rightarrow> int \<Rightarrow> store \<times> (error + ref)" where
  "multi_byte_rotating_xor s data key bits =
     (if length (content s data) = 0 then (s, Inl MungerException)
      else if length (content s key) = 0 then (s, Inl MungerException)
      else (let (d, s1) = as_bytearray s data;
                (k, s2) = as_bytearray s1 key
            in (case multi_byte_rotating_loop bits d k 0 0 (length (content s2 d)) s2 of
                  (s3, Some e) \<Rightarrow> (s3, Inl e)
                | (s3, None) \<Rightarrow> (s3, Inr d))))"

subsection \<open>\<^verbatim>\<open>Munger.munge\<close> and \<^verbatim>\<open>Munger.unmunge\<close>\<close>

text \<open>
  \<^verbatim>\<open>
  def munge(self, data):
      key = os.urandom(4)
      data = self.multi_byte_rotating_xor(data, key)
      return key + data

  def unmunge(self, data):
      return self.multi_byte_rotating_xor(data[4:], data[:4])
  \<close>
  \<^verbatim>\<open>os.urandom\<close> returns \<^verbatim>\<open>bytes\<close>, and so does \<^verbatim>\<open>key + data\<close>.
\<close>

definition munge :: "store \<Rightarrow> ref \<Rightarrow> entropy \<Rightarrow> (store \<times> entropy) \<times> (error + ref)" where
  "munge s data e =
     (case urandom 4 e of
        (Inl err, e') \<Rightarrow> ((s, e'), Inl err)
      | (Inr drawn, e') \<Rightarrow>
          (let (key, s1) = alloc (Bytes drawn) s
           in (case multi_byte_rotating_xor s1 data key 3 of
                 (s2, Inl err) \<Rightarrow> ((s2, e'), Inl err)
               | (s2, Inr d) \<Rightarrow>
                   (let (r, s3) = alloc (Bytes (content s2 key @ content s2 d)) s2
                    in ((s3, e'), Inr r)))))"

definition unmunge :: "store \<Rightarrow> ref \<Rightarrow> store \<times> (error + ref)" where
  "unmunge s data =
     (let (payload, s1) = alloc (same_type (s ! data) (drop 4 (content s data))) s;
          (key, s2) = alloc (same_type (s ! data) (take 4 (content s data))) s1
      in multi_byte_rotating_xor s2 payload key 3)"

subsection \<open>The key schedules of the multi-byte transforms, on buffer contents\<close>

text \<open>
  The schedules in the specification's words. Multi-byte rolling XOR:
  \<open>out[i] = in[i] XOR key[i mod N]\<close>, then the key slot is replaced by the input byte
  it masked. Multi-byte rotating XOR: \<open>out[i] = in[i] XOR key[i mod N]\<close>, then the key
  slot is rotated right by \<open>b\<close> bits. Both give the output and the key as it is left.
\<close>

definition next_slot :: "nat \<Rightarrow> nat \<Rightarrow> nat" where
  "next_slot N k = (if k + 1 = N then 0 else k + 1)"

fun rolling_schedule :: "byte list \<Rightarrow> byte list \<Rightarrow> nat \<Rightarrow> byte list \<times> byte list" where
  "rolling_schedule [] key k = ([], key)"
| "rolling_schedule (x # xs) key k =
     (let (out, key') = rolling_schedule xs (key[k := x]) (next_slot (length key) k)
      in ((x XOR key ! k) # out, key'))"

definition rotate_byte :: "nat \<Rightarrow> byte \<Rightarrow> byte" where
  "rotate_byte b v = word_of_int (rotate_right_8bit (uint v) b)"

fun multi_rotating_schedule ::
  "nat \<Rightarrow> byte list \<Rightarrow> byte list \<Rightarrow> nat \<Rightarrow> byte list \<times> byte list" where
  "multi_rotating_schedule b [] key k = ([], key)"
| "multi_rotating_schedule b (x # xs) key k =
     (let (out, key') =
            multi_rotating_schedule b xs (key[k := rotate_byte b (key ! k)])
              (next_slot (length key) k)
      in ((x XOR key ! k) # out, key'))"

subsection \<open>Calling a transform twice with the same key object\<close>

text \<open>
  \<^verbatim>\<open>once = m.multi_byte_rotating_xor(data, key); twice = m.multi_byte_rotating_xor(once, key)\<close>,
  and the same for the rolling transform: the second call gets the object the first one
  returned and the key object the caller still holds.
\<close>

definition rolling_twice :: "store \<Rightarrow> ref \<Rightarrow> ref \<Rightarrow> store \<times> (error + ref)" where
  "rolling_twice s data key =
     (case multi_byte_rolling_xor s data key of
        (s1, Inl e) \<Rightarrow> (s1, Inl e)
      | (s1, Inr once) \<Rightarrow> multi_byte_rolling_xor s1 once key)"

definition rotating_twice :: "store \<Rightarrow> ref \<Rightarrow> ref \<Rightarrow> int \<Rightarrow> store \<times> (error + ref)" where
  "rotating_twice s data key bits =
     (case multi_byte_rotating_xor s data key bits of
        (s1, Inl e) \<Rightarrow> (s1, Inl e)
      | (s1, Inr once) \<Rightarrow> multi_byte_rotating_xor s1 once key bits)"

text \<open>What a call returned, read as contents.\<close>

definition returned :: "store \<times> (error + ref) \<Rightarrow> error + byte list" where
  "returned r = (case r of (s, Inl e) \<Rightarrow> Inl e | (s, Inr d) \<Rightarrow> Inr (content s d))"

section \<open>Properties of the single-byte transforms\<close>

subsection \<open>\<^verbatim>\<open>Munger.xor\<close>: the key range check\<close>

lemma xor_munger_rejected_keys:
  "data \<noteq> [] \<Longrightarrow> key < 0 \<or> 256 < key \<Longrightarrow> xor_munger data key = Inl MungerException"
  by (auto simp: xor_munger_def)

lemma xor_table_256: "xor_table 256 = Inl ValueError"
  by code_simp

lemma xor_munger_key_256: "data \<noteq> [] \<Longrightarrow> xor_munger data 256 = Inl ValueError"
  by (simp add: xor_munger_def xor_table_256)

text \<open>
  Claim C6. For every non-empty data buffer and every integer key outside [0,255] the
  single-byte xor is to fail with the typed invalid-input error, in particular for
  key = 256. The range check of the code is \<^verbatim>\<open>key > 256 or key < 0\<close>, so the key 256
  passes it; building the translation table then fails in \<^verbatim>\<open>bytes(...)\<close>, since
  \<^verbatim>\<open>256 ^ i\<close> is not a byte, and the caller sees \<^verbatim>\<open>ValueError\<close>, not
  \<^verbatim>\<open>MungerException\<close>.
\<close>

theorem xor_key_256_ValueError: "xor_munger [97] 256 = Inl ValueError"
  by code_simp

subsection \<open>\<^verbatim>\<open>Munger.rolling_xor\<close>: the feedback variable\<close>

lemma rolling_xor_unbound:
  "data \<noteq> [] \<Longrightarrow> 0 \<le> key \<Longrightarrow> key \<le> 255 \<Longrightarrow> rolling_xor data key = Inl UnboundLocalError"
  by (cases data) (simp_all add: rolling_xor_def)

text \<open>
  Claim C2. For non-empty data and a key in [0,255], \<^verbatim>\<open>rolling_xor\<close> is to return
  \<open>out[0] = in[0] XOR key\<close> and \<open>out[i] = in[i] XOR in[i-1]\<close>. The code never seeds the
  feedback variable \<^verbatim>\<open>k\<close> with the key: the first iteration reads it unbound, and the
  call raises \<^verbatim>\<open>UnboundLocalError\<close> instead of returning a buffer. Here on the one-byte
  buffer \<^verbatim>\<open>b'\x01'\<close> with key 0, where the claim gives \<^verbatim>\<open>b'\x01'\<close>.
\<close>

theorem rolling_xor_raises_UnboundLocalError: "rolling_xor [1] 0 = Inl UnboundLocalError"
  by (simp add: rolling_xor_def)

subsection \<open>\<^verbatim>\<open>Munger.rotating_xor\<close>: the key schedule\<close>

lemma rotate_right_8bit_range:
  assumes "0 \<le> v" "v \<le> 255"
  shows "0 \<le> rotate_right_8bit v b \<and> rotate_right_8bit v b \<le> 255"
proof -
  have d0: "0 \<le> drop_bit b v" using assms by simp
  have "drop_bit b v \<le> v" using assms
    by (simp add: drop_bit_eq_div) (metis div_by_1 one_le_power zdiv_mono2 zero_less_one one_le_numeral)
  then have d1: "drop_bit b v < 2 ^ 8" using assms by simp
  have a0: "0 \<le> push_bit (8 - b) v AND 255" by (simp add: AND_lower)
  have "push_bit (8 - b) v AND 255 \<le> 255" by (rule AND_upper2) simp
  then have a1: "push_bit (8 - b) v AND 255 < 2 ^ 8" by simp
  have "drop_bit b v OR (push_bit (8 - b) v AND 255) < 2 ^ 8"
    by (rule OR_upper [OF d0 d1 a1])
  then show ?thesis using d0 a0 by (simp add: rotate_right_8bit_def)
qed

lemma rotate_key_eq:
  "0 \<le> bits \<Longrightarrow> bits \<le> 8 \<Longrightarrow> rotate_key key bits = Inr (rotate_right_8bit key (nat bits))"
  by (simp add: rotate_key_def rotate_right_8bit_def nat_diff_distrib)

lemma to_byte_xor:
  assumes "0 \<le> key" "key \<le> 255"
  shows "to_byte (uint (d::byte) XOR key) = Inr (d XOR word_of_int key)"
proof -
  have "uint d < 2 ^ 8" using uint_bounded [of d] by simp
  moreover have "key < 2 ^ 8" using assms by simp
  ultimately have "uint d XOR key < 2 ^ 8" by (intro XOR_upper) simp_all
  moreover have "0 \<le> uint d XOR key" using assms by simp
  ultimately show ?thesis by (simp add: to_byte_def of_int_xor_eq)
qed

lemma rotating_schedule_Nil: "rotating_schedule [] key b = []"
  by (simp add: rotating_schedule_def)

lemma rotating_schedule_Cons:
  "rotating_schedule (d # ds) key b =
     (d XOR word_of_int key) # rotating_schedule ds (rotate_right_8bit key b) b"
proof -
  have "rotate_right_8bit (((\<lambda>v. rotate_right_8bit v b) ^^ i) key) b =
        ((\<lambda>v. rotate_right_8bit v b) ^^ i) (rotate_right_8bit key b)" for i
    using funpow_swap1 [of "\<lambda>v. rotate_right_8bit v b" i key] by simp
  then show ?thesis
    by (simp add: rotating_schedule_def map_upt_Suc del: upt_Suc)
qed

lemma rotating_loop_schedule:
  "0 \<le> key \<Longrightarrow> key \<le> 255 \<Longrightarrow> 0 \<le> bits \<Longrightarrow> bits \<le> 8 \<Longrightarrow>
   rotating_loop data key bits = Inr (rotating_schedule data key (nat bits))"
proof (induction data arbitrary: key)
  case Nil
  then show ?case by (simp add: rotating_schedule_Nil)
next
  case (Cons d ds)
  from rotate_right_8bit_range [OF Cons.prems(1,2)]
  have "rotating_loop ds (rotate_right_8bit key (nat bits)) bits =
        Inr (rotating_schedule ds (rotate_right_8bit key (nat bits)) (nat bits))"
    using Cons.prems by (intro Cons.IH) simp_all
  then show ?case using Cons.prems
    by (simp add: to_byte_xor rotate_key_eq rotating_schedule_Cons)
qed

text \<open>
  Claim C7. \<^verbatim>\<open>rotating_xor\<close> follows the schedule \<open>out[i] = in[i] XOR key\<close>, with the
  key replaced after each byte by \<open>rotate_right_8bit key bits\<close>: for non-empty data, a
  key in [0,255] and a rotation width in [0,8] the call returns exactly
  \<open>rotating_schedule\<close>. The fixed vector of the claim, data \<^verbatim>\<open>b'\x00\x00\x00'\<close> with
  key \<open>0b00000111\<close> and width 3 giving \<open>0b00000111\<close>, \<open>0b11100000\<close>, \<open>0b00011100\<close>
  (7, 224, 28), is the instance that follows the theorem.
\<close>

theorem rotating_xor_schedule:
  "data \<noteq> [] \<Longrightarrow> 0 \<le> key \<Longrightarrow> key \<le> 255 \<Longrightarrow> 0 \<le> bits \<Longrightarrow> bits \<le> 8 \<Longrightarrow>
   rotating_xor data key bits = Inr (rotating_schedule data key (nat bits))"
  by (simp add: rotating_xor_def rotating_loop_schedule)

theorem rotating_xor_schedule_vector:
  "rotating_xor [0, 0, 0] 7 3 = Inr [7, 224, 28]"
proof -
  have "rotating_schedule [0, 0, 0] 7 (nat 3) = [7, 224, 28]"
    by code_simp
  then show ?thesis using rotating_xor_schedule [of "[0, 0, 0]" 7 3] by simp
qed

section \<open>Properties of the random generators\<close>

subsection \<open>\<^verbatim>\<open>Random.bytes\<close>: when the loop ends\<close>

lemma bytes_loop_never:
  assumes "bytes_loop n avoid ret e = Some y"
  shows "\<not> (set avoid = UNIV \<and> ret = [] \<and> 0 < n)"
proof (rule bytes_loop.raw_induct
    [where P = "\<lambda>n avoid ret e y. \<not> (set avoid = UNIV \<and> ret = [] \<and> 0 < n)", OF _ assms])
  fix f :: "int \<Rightarrow> byte list \<Rightarrow> byte list \<Rightarrow> entropy \<Rightarrow> ((error + byte list) \<times> entropy) option"
  fix n avoid ret e y
  assume IH: "\<And>n avoid ret e y. f n avoid ret e = Some y \<Longrightarrow>
                \<not> (set avoid = UNIV \<and> ret = [] \<and> 0 < n)"
  assume body:
    "(if int (length ret) \<noteq> n then
        (case urandom (n - int (length ret)) e of
           (Inl err, e') \<Rightarrow> Some (Inl err, e')
         | (Inr raw, e') \<Rightarrow> f n avoid (ret @ filter (\<lambda>b. b \<notin> set avoid) raw) e')
      else Some (Inr ret, e)) = Some y"
  show "\<not> (set avoid = UNIV \<and> ret = [] \<and> 0 < n)"
  proof
    assume a: "set avoid = UNIV \<and> ret = [] \<and> 0 < n"
    then have "f n avoid [] (\<lambda>i. e (nat n + i)) = Some y"
      using body by (simp add: urandom_def)
    from IH [OF this] a show False by simp
  qed
qed

lemma unat_byte_less: "unat (b::byte) < 256"
  using unsigned_less [of b, where ?'a = nat] by simp

lemma set_every_byte: "set every_byte = UNIV"
proof -
  have "b \<in> set every_byte" for b :: byte
  proof -
    have "of_nat (unat b) \<in> set every_byte"
      unfolding every_byte_def using unat_byte_less [of b] by (simp del: of_nat_unat)
    then show ?thesis by simp
  qed
  then show ?thesis by auto
qed

lemma bytes_zero: "bytes 0 avoid e = Some (Inr [], e)"
  by (simp add: bytes_def bytes_loop.simps)

lemma bytes_negative: "n < 0 \<Longrightarrow> bytes n avoid e = Some (Inl ValueError, e)"
  by (simp add: bytes_def bytes_loop.simps [of n avoid "[]"] urandom_def)

lemma bytes_no_avoid:
  "0 \<le> n \<Longrightarrow> bytes n [] e = Some (Inr (map e [0..<nat n]), \<lambda>i. e (nat n + i))"
  by (simp add: bytes_def bytes_loop.simps [of n "[]" "[]"]
        bytes_loop.simps [of n "[]" "map e [0..<nat n]"] urandom_def)

text \<open>
  Claim C5. For a positive length and an \<^verbatim>\<open>avoid\<close> set that covers all 256 byte values,
  \<^verbatim>\<open>Random.bytes\<close> is to fail with the typed invalid-input error rather than loop
  forever. The code has no such check: every byte drawn is deleted, \<^verbatim>\<open>ret\<close> stays
  empty, and the loop is entered again without end. On the one-byte request with
  every byte avoided the call has no result at all, neither a buffer nor an error.
\<close>

theorem bytes_every_byte_avoided:
  "bytes 1 every_byte zero_entropy = None"
proof (cases "bytes 1 every_byte zero_entropy")
  case None
  then show ?thesis .
next
  case (Some y)
  then show ?thesis
    using bytes_loop_never [of 1 every_byte "[]" zero_entropy y] set_every_byte
    by (simp add: bytes_def)
qed

text \<open>
  Claim C5, as the code has it: for every positive length, if \<^verbatim>\<open>avoid\<close> covers all 256
  byte values, \<^verbatim>\<open>Random.bytes\<close> never returns; it raises no error and does not
  terminate.
\<close>

theorem bytes_all_avoided_diverges:
  "0 < n \<Longrightarrow> set avoid = UNIV \<Longrightarrow> bytes n avoid e = None"
  using bytes_loop_never [of n avoid "[]" e] by (cases "bytes n avoid e") (auto simp: bytes_def)

theorem bytes_all_avoided_diverges_witness:
  "(0::int) < 3 \<and> set every_byte = UNIV \<and> bytes 3 every_byte counting_entropy = None"
  using bytes_all_avoided_diverges [of 3 every_byte counting_entropy] set_every_byte by simp

subsection \<open>Base64: decoding what was encoded\<close>

lemma unat_of_nat_byte: "n < 256 \<Longrightarrow> unat (of_nat n :: byte) = n"
  by (simp add: unat_of_nat take_bit_nat_eq_self del: of_nat_add)

lemma unat_b64_char:
  "i < 64 \<Longrightarrow> unat (b64_char i) =
     (if i < 26 then 65 + i else if i < 52 then 71 + i else if i < 62 then i - 4
      else if i = 62 then 43 else 47)"
  unfolding b64_char_def
  by (simp add: unat_of_nat_byte del: of_nat_add of_nat_diff)

lemma b64_value_char: "i < 64 \<Longrightarrow> b64_value (b64_char i) = Some i"
  unfolding b64_value_def Let_def by (simp add: unat_b64_char) arith

lemma b64_value_pad: "b64_value 61 = None" "b64_value 10 = None"
  by (simp_all add: b64_value_def)

lemma b64_char_not_pad: "i < 64 \<Longrightarrow> b64_char i \<noteq> 61"
  using b64_value_char [of i] b64_value_pad(1) by auto

lemma b64_significant_char: "i < 64 \<Longrightarrow> b64_significant (b64_char i)"
  by (simp add: b64_significant_def b64_value_char)

lemma b64_significant_pad: "b64_significant 61" "\<not> b64_significant 10"
  by (simp_all add: b64_significant_def b64_value_pad)

lemma sextets:
  fixes a b c :: byte
  shows "unat a div 4 < 64" "unat a mod 4 * 16 < 64" "unat a mod 4 * 16 + unat b div 16 < 64"
        "unat b mod 16 * 4 < 64" "unat b mod 16 * 4 + unat c div 64 < 64" "unat c mod 64 < 64"
  using unat_byte_less [of a] unat_byte_less [of b] unat_byte_less [of c] by arith+


lemma octets_nat:
  fixes x y z :: nat
  assumes "y < 256" "z < 256"
  shows "x div 4 * 4 + (x mod 4 * 16) div 16 = x"
        "x div 4 * 4 + (x mod 4 * 16 + y div 16) div 16 = x"
        "(x mod 4 * 16 + y div 16) mod 16 * 16 + (y mod 16 * 4) div 4 = y"
        "(x mod 4 * 16 + y div 16) mod 16 * 16 + (y mod 16 * 4 + z div 64) div 4 = y"
        "(y mod 16 * 4 + z div 64) mod 4 * 64 + z mod 64 = z"
proof -
  have y: "y div 16 < 16" using assms(1) by (simp add: less_mult_imp_div_less)
  have z: "z div 64 < 4" using assms(2) by (simp add: less_mult_imp_div_less)
  show "x div 4 * 4 + (x mod 4 * 16) div 16 = x" by simp
  show "x div 4 * 4 + (x mod 4 * 16 + y div 16) div 16 = x" using y by simp
  show "(x mod 4 * 16 + y div 16) mod 16 * 16 + (y mod 16 * 4) div 4 = y" using y by simp
  show "(x mod 4 * 16 + y div 16) mod 16 * 16 + (y mod 16 * 4 + z div 64) div 4 = y"
    using y z by simp
  show "(y mod 16 * 4 + z div 64) mod 4 * 64 + z mod 64 = z" using z by simp
qed

lemma octets:
  fixes a b c :: byte
  shows "unat a div 4 * 4 + (unat a mod 4 * 16) div 16 = unat a \<and>
         unat a div 4 * 4 + (unat a mod 4 * 16 + unat b div 16) div 16 = unat a \<and>
         (unat a mod 4 * 16 + unat b div 16) mod 16 * 16 + (unat b mod 16 * 4) div 4 = unat b \<and>
         (unat a mod 4 * 16 + unat b div 16) mod 16 * 16
            + (unat b mod 16 * 4 + unat c div 64) div 4 = unat b \<and>
         (unat b mod 16 * 4 + unat c div 64) mod 4 * 64 + unat c mod 64 = unat c"
proof -
  note parts = octets_nat [OF unat_byte_less [of b] unat_byte_less [of c]]
  show ?thesis by (intro conjI parts)
qed


lemma b64_decode_encode: "b64_decode (b64_encode raw) = Some raw"
proof (induction raw rule: b64_encode.induct)
  case 1
  show ?case by simp
next
  case (2 a)
  show ?case
    using octets [of a a a]
    by (simp add: Let_def b64_value_char sextets del: of_nat_add of_nat_mult)
next
  case (3 a b)
  show ?case
    using octets [of a b b]
    by (simp add: Let_def b64_value_char b64_char_not_pad sextets
             del: of_nat_add of_nat_mult)
next
  case (4 a b c rest)
  then show ?case
    using octets [of a b c]
    by (simp add: Let_def b64_value_char b64_char_not_pad sextets
             del: of_nat_add of_nat_mult)
qed

lemma b64_encode_significant: "filter b64_significant (b64_encode raw) = b64_encode raw"
  by (induction raw rule: b64_encode.induct)
     (simp_all add: Let_def b64_significant_char b64_significant_pad sextets)

lemma a2b_b2a_base64: "a2b_base64 (b2a_base64 raw) = Some raw"
  by (simp add: a2b_base64_def b2a_base64_def b64_encode_significant b64_significant_pad
        b64_decode_encode)

lemma length_b64_encode: "length (b64_encode raw) = 4 * ((length raw + 2) div 3)"
proof (induction raw rule: b64_encode.induct)
  case (4 a b c rest)
  have "(length (a # b # c # rest) + 2) div 3 = Suc ((length rest + 2) div 3)" by simp
  then show ?case using 4 by (simp add: Let_def)
qed (simp_all add: Let_def)

lemma base64_raw_length_eq: "base64_raw_length n = - ((- (5 * n)) div 6)"
proof -
  have "(of_int n :: rat) * (5 / 6) = of_int (5 * n) / of_int 6" by simp
  then show ?thesis
    unfolding base64_raw_length_def by (simp only: ceiling_divide_eq_div)
qed

lemma base64_raw_length_bounds:
  "0 \<le> n \<Longrightarrow> 0 \<le> base64_raw_length n \<and> 5 * n \<le> 6 * base64_raw_length n"
  unfolding base64_raw_length_eq by presburger

lemma base64_raw_length_less: "6 \<le> n \<Longrightarrow> base64_raw_length n < n"
  unfolding base64_raw_length_eq by presburger

lemma length_b2a_base64:
  assumes "0 \<le> n" and "int (length raw) = base64_raw_length n"
  shows "n \<le> int (length (b2a_base64 raw))"
proof -
  have "5 * n \<le> 6 * int (length raw)"
    using base64_raw_length_bounds [OF assms(1)] assms(2) by simp
  moreover have "length raw \<le> 3 * ((length raw + 2) div 3)" by presburger
  ultimately have "5 * n \<le> 18 * int ((length raw + 2) div 3)" by linarith
  then show ?thesis using assms(1) by (simp add: b2a_base64_def length_b64_encode)
qed

subsection \<open>\<^verbatim>\<open>Random.base64\<close>: the decodable form\<close>

text \<open>
  Claim C3. \<^verbatim>\<open>base64(length, decodable=True)\<close> is to return a value that decodes to
  at least \<open>length\<close> bytes, concretely at least 10 bytes for \<open>length = 10\<close>. The
  code draws \<open>ceil(10 * 5/6) = 9\<close> raw bytes, so its result decodes to 9 bytes: here
  with an entropy source of zero bytes, where the result is twelve \<^verbatim>\<open>A\<close> and a newline.
\<close>

theorem base64_decodes_short:
  "map_option fst (base64 remdups 10 [] True zero_entropy) =
     Some (Inr [65, 65, 65, 65, 65, 65, 65, 65, 65, 65, 65, 65, 10]) \<and>
   a2b_base64 [65, 65, 65, 65, 65, 65, 65, 65, 65, 65, 65, 65, 10] =
     Some [0, 0, 0, 0, 0, 0, 0, 0, 0] \<and>
   length [0, 0, 0, 0, 0, 0, 0, 0, 0 :: byte] < 10"
  by code_simp

text \<open>
  Claim C3, as the code has it: for every requested length \<open>n \<ge> 0\<close>,
  \<^verbatim>\<open>base64(n, decodable=True)\<close> draws exactly \<open>ceil(n * 5/6)\<close> raw random bytes and
  returns their padded Base64 encoding followed by a newline; that result has at least
  \<open>n\<close> bytes, and standard Base64 decoding gives back exactly the \<open>ceil(n * 5/6)\<close> raw
  bytes (fewer than \<open>n\<close> from \<open>n = 6\<close> on, see \<open>base64_raw_length_less\<close>).
\<close>

theorem base64_decodable:
  assumes "0 \<le> n"
  shows "\<exists>raw e'. base64 enum n avoid True e = Some (Inr (b2a_base64 raw), e') \<and>
           raw = map e [0..<nat (base64_raw_length n)] \<and>
           a2b_base64 (b2a_base64 raw) = Some raw \<and>
           int (length raw) = base64_raw_length n \<and>
           n \<le> int (length (b2a_base64 raw))"
proof -
  let ?raw = "map e [0..<nat (base64_raw_length n)]"
  have m: "0 \<le> base64_raw_length n" using base64_raw_length_bounds [OF assms] by simp
  then have len: "int (length ?raw) = base64_raw_length n" by simp
  have "base64 enum n avoid True e =
          Some (Inr (b2a_base64 ?raw), \<lambda>i. e (nat (base64_raw_length n) + i))"
    by (simp add: base64_def bytes_no_avoid [OF m])
  then show ?thesis
    using a2b_b2a_base64 [of ?raw] len length_b2a_base64 [OF assms len] by blast
qed

theorem base64_decodable_witness:
  "\<exists>raw e'. base64 remdups 10 [] True counting_entropy = Some (Inr (b2a_base64 raw), e') \<and>
      raw = [0, 1, 2, 3, 4, 5, 6, 7, 8] \<and>
      a2b_base64 (b2a_base64 raw) = Some raw \<and>
      length raw = 9 \<and>
      (10::int) \<le> int (length (b2a_base64 raw))"
proof -
  have "(0::int) \<le> 10" by simp
  from base64_decodable [OF this, of remdups "[]" counting_entropy]
  obtain raw e' where r: "base64 remdups 10 [] True counting_entropy = Some (Inr (b2a_base64 raw), e')"
    "raw = map counting_entropy [0..<nat (base64_raw_length 10)]"
    "a2b_base64 (b2a_base64 raw) = Some raw" "int (length raw) = base64_raw_length 10"
    "10 \<le> int (length (b2a_base64 raw))" by blast
  have "base64_raw_length 10 = 9" by code_simp
  moreover have "map counting_entropy [0..<9] = [0, 1, 2, 3, 4, 5, 6, 7, 8]" by code_simp
  ultimately have "raw = [0, 1, 2, 3, 4, 5, 6, 7, 8]" "length raw = 9" using r(2,4) by simp_all
  then show ?thesis using r(1,3,5) by blast
qed

subsection \<open>\<^verbatim>\<open>Random.sample\<close>: the working alphabet\<close>

lemma drop_avoided_set:
  "distinct s \<Longrightarrow> distinct (drop_avoided av s) \<and> set (drop_avoided av s) = set s - set av"
  unfolding drop_avoided_def
proof (induction av arbitrary: s)
  case Nil
  then show ?case by simp
next
  case (Cons a av)
  have "distinct (remove1 a s)" using Cons.prems by simp
  from Cons.IH [OF this] Cons.IH [OF Cons.prems] Cons.prems
  show ?case by (auto simp: set_remove1_eq)
qed

lemma pick_nonempty:
  "sequence \<noteq> [] \<Longrightarrow>
   pick sequence raw = Inr (map (\<lambda>x. sequence ! (unat x mod length sequence)) raw)"
  by (induction raw) simp_all

lemma pick_empty: "pick [] raw = (if raw = [] then Inr [] else Inl ZeroDivisionError)"
  by (cases raw) simp_all

lemma working_alphabet:
  assumes "set_iteration enum"
  shows "set (drop_avoided (enum avoid) (enum sequence)) = set sequence - set avoid"
  using assms drop_avoided_set [of "enum sequence" "enum avoid"]
  by (simp add: set_iteration_def)

lemma set_iteration_remdups: "set_iteration remdups"
  by (simp add: set_iteration_def)

text \<open>
  Claim C4. When the working alphabet \<^verbatim>\<open>set(alphabet) - set(avoid)\<close> is empty,
  \<^verbatim>\<open>sample\<close> is to fail with the typed invalid-input error. The code does not look at
  the working alphabet before it samples: with one byte requested the modulo by the
  length of the empty sequence raises \<^verbatim>\<open>ZeroDivisionError\<close>, and with no byte requested
  the call succeeds and returns the empty buffer.
\<close>

theorem sample_exhausted_no_typed_error:
  "fst (sample remdups [1] 1 [1] zero_entropy) = Inl ZeroDivisionError \<and>
   fst (sample remdups [1] 0 [1] zero_entropy) = Inr []"
  by code_simp

text \<open>
  Claim C4, as the code has it: for every alphabet, length \<open>n \<ge> 0\<close> and exclusion set
  whose working alphabet is empty, \<^verbatim>\<open>sample\<close> fails with \<^verbatim>\<open>ZeroDivisionError\<close> when
  \<open>n \<ge> 1\<close> and returns the empty buffer when \<open>n = 0\<close>, in whatever order the sets are
  listed.
\<close>

theorem sample_exhausted:
  assumes "set_iteration enum" and "set alphabet - set avoid = {}" and "0 \<le> n"
  shows "fst (sample enum alphabet n avoid e) = (if n = 0 then Inr [] else Inl ZeroDivisionError)"
proof -
  have "set (drop_avoided (enum avoid) (enum alphabet)) = {}"
    using working_alphabet [OF assms(1)] assms(2) by simp
  then have "drop_avoided (enum avoid) (enum alphabet) = []" by simp
  then show ?thesis using assms(3)
    by (simp add: sample_def urandom_def pick_empty Let_def)
qed

theorem sample_exhausted_witness:
  "set_iteration remdups \<and> set [1, 2 :: byte] - set [2, 1, 3] = {} \<and>
   fst (sample remdups [1, 2] 4 [2, 1, 3] counting_entropy) = Inl ZeroDivisionError \<and>
   fst (sample remdups [1, 2] 0 [2, 1, 3] counting_entropy) = Inr []"
proof -
  have e: "set [1, 2 :: byte] - set [2, 1, 3] = {}" by simp
  show ?thesis
    using sample_exhausted [OF set_iteration_remdups e, of 4 counting_entropy]
          sample_exhausted [OF set_iteration_remdups e, of 0 counting_entropy]
          set_iteration_remdups e
    by simp
qed

text \<open>
  Claim C8. For every alphabet, length \<open>n\<close> (a length: \<open>n \<ge> 0\<close>) and exclusion set with
  a non-empty working alphabet, \<^verbatim>\<open>sample\<close> returns a buffer of exactly \<open>n\<close> bytes, each
  of them a member of the alphabet and not a member of \<^verbatim>\<open>avoid\<close>, in whatever order the
  sets are listed.
\<close>

theorem sample_in_alphabet:
  assumes "set_iteration enum" and "set alphabet - set avoid \<noteq> {}" and "0 \<le> n"
  shows "\<exists>out. fst (sample enum alphabet n avoid e) = Inr out \<and> length out = nat n \<and>
           (\<forall>b \<in> set out. b \<in> set alphabet \<and> b \<notin> set avoid)"
proof -
  let ?s = "drop_avoided (enum avoid) (enum alphabet)"
  have s: "set ?s = set alphabet - set avoid" by (rule working_alphabet [OF assms(1)])
  then have ne: "?s \<noteq> []" using assms(2) by auto
  let ?out = "map (\<lambda>x. ?s ! (unat x mod length ?s)) (map e [0..<nat n])"
  have "fst (sample enum alphabet n avoid e) = Inr ?out"
    using assms(3) by (simp add: sample_def urandom_def pick_nonempty [OF ne] Let_def)
  moreover have "length ?out = nat n" by simp
  moreover have "\<forall>b \<in> set ?out. b \<in> set alphabet \<and> b \<notin> set avoid"
  proof -
    have "?s ! (unat x mod length ?s) \<in> set ?s" for x :: byte using ne by simp
    then have "set ?out \<subseteq> set ?s" by auto
    then show ?thesis using s by auto
  qed
  ultimately show ?thesis by blast
qed

theorem sample_in_alphabet_witness:
  "set_iteration remdups \<and> set [1, 2, 3, 2 :: byte] - set [2] \<noteq> {} \<and>
   (\<exists>out. fst (sample remdups [1, 2, 3, 2] 5 [2] counting_entropy) = Inr out \<and>
      length out = 5 \<and> (\<forall>b \<in> set out. b \<in> set [1, 2, 3, 2] \<and> b \<notin> set [2]))"
proof -
  have ne: "set [1, 2, 3, 2 :: byte] - set [2] \<noteq> {}" by auto
  have n: "(0::int) \<le> 5" by simp
  show ?thesis
    using sample_in_alphabet [OF set_iteration_remdups ne n, of counting_entropy]
          set_iteration_remdups ne
    by simp
qed

section \<open>Properties of the multi-byte transforms\<close>

subsection \<open>The loops against the schedules\<close>

lemma uint_byte_range: "0 \<le> uint (v::byte) \<and> uint v \<le> 255"
  using uint_bounded [of v] by simp

lemma to_byte_rotate: "to_byte (rotate_right_8bit (uint v) b) = Inr (rotate_byte b v)"
  using rotate_right_8bit_range [of "uint v" b] uint_byte_range [of v]
  by (simp add: to_byte_def rotate_byte_def)

lemma update_twice:
  "d \<noteq> k \<Longrightarrow> s[d := a, k := b, d := a', k := b'] = s[d := a', k := b']"
  by (simp add: list_update_swap [of d k])

lemma update_both_same:
  "s ! d = a \<Longrightarrow> s ! k = b \<Longrightarrow> s[d := a, k := b] = s"
  by (metis list_update_id)

lemma multi_byte_rotating_loop_schedule:
  assumes "d \<noteq> kr" "d < length s" "kr < length s" "0 \<le> bits" "bits \<le> 8"
  shows "s ! d = Bytearray (pre @ xs) \<Longrightarrow> s ! kr = Bytearray key \<Longrightarrow>
         multi_byte_rotating_loop bits d kr (length pre) k (length xs) s =
           (s[d := Bytearray (pre @ fst (multi_rotating_schedule (nat bits) xs key k)),
              kr := Bytearray (snd (multi_rotating_schedule (nat bits) xs key k))], None)"
  using assms(2,3)
proof (induction xs arbitrary: pre key k s)
  case Nil
  then show ?case by (simp add: update_both_same)
next
  case (Cons x xs)
  let ?s1 = "s[d := Bytearray (pre @ (x XOR key ! k) # xs)]"
  let ?key' = "key[k := rotate_byte (nat bits) (key ! k)]"
  let ?s2 = "?s1[kr := Bytearray ?key']"
  have s1: "poke s d (length pre) (content s d ! length pre XOR content s kr ! k) = ?s1"
    using Cons.prems by (simp add: poke_def content_def)
  have k1: "content ?s1 kr = key" using Cons.prems assms(1) by (simp add: content_def)
  have s2: "poke ?s1 kr k (rotate_byte (nat bits) (key ! k)) = ?s2"
    using Cons.prems assms(1) by (simp add: poke_def content_def)
  have len: "length (content ?s2 kr) = length key"
    using Cons.prems by (simp add: content_def)
  have d2: "?s2 ! d = Bytearray ((pre @ [x XOR key ! k]) @ xs)"
    using Cons.prems assms(1) by simp
  have k2: "?s2 ! kr = Bytearray ?key'" using Cons.prems by simp
  have "d < length ?s2" "kr < length ?s2" using Cons.prems by simp_all
  from Cons.IH [OF d2 k2 this, of "next_slot (length key) k"]
  show ?case
    using assms(1,4,5)
    by (simp add: s1 k1 s2 len rotate_key_eq to_byte_rotate next_slot_def update_twice
          split: prod.splits)
qed


lemma multi_byte_rotating_xor_result:
  assumes valid: "data < length s" "key < length s"
      and nonempty: "content s data \<noteq> []" "content s key \<noteq> []"
      and bits: "0 \<le> bits" "bits \<le> 8"
      and apart: "data \<noteq> key \<or> is_bytes (s ! data) \<or> is_bytes (s ! key)"
  defines "s1 \<equiv> if is_bytes (s ! data) then s @ [Bytearray (content s data)] else s"
      and "d \<equiv> if is_bytes (s ! data) then length s else data"
  defines "s2 \<equiv> if is_bytes (s ! key) then s1 @ [Bytearray (content s key)] else s1"
      and "kr \<equiv> if is_bytes (s ! key) then length s1 else key"
  defines "sched \<equiv> multi_rotating_schedule (nat bits) (content s data) (content s key) 0"
  shows "multi_byte_rotating_xor s data key bits =
           (s2[d := Bytearray (fst sched), kr := Bytearray (snd sched)], Inr d)"
proof -
  have a1: "as_bytearray s data = (d, s1)"
    by (simp add: as_bytearray_def alloc_def d_def s1_def)
  have key1: "s1 ! key = s ! key" using valid by (simp add: s1_def nth_append)
  have a2: "as_bytearray s1 key = (kr, s2)"
    by (simp add: as_bytearray_def alloc_def kr_def s2_def key1 content_def)
  have dk: "d \<noteq> kr" using valid apart by (auto simp: d_def kr_def s1_def)
  have dl: "d < length s2" using valid by (simp add: d_def s2_def s1_def)
  have kl: "kr < length s2" using valid by (simp add: kr_def s2_def s1_def)
  have dv: "s2 ! d = Bytearray ([] @ content s data)"
    using valid by (cases "s ! data") (auto simp: d_def s2_def s1_def nth_append content_def)
  have kv: "s2 ! kr = Bytearray (content s key)"
    using valid by (cases "s ! key") (auto simp: kr_def s2_def s1_def nth_append content_def)
  have len: "length (content s2 d) = length (content s data)"
    using dv by (simp add: content_def)
  from multi_byte_rotating_loop_schedule [OF dk dl kl bits dv kv, of 0]
  show ?thesis using nonempty
    by (simp add: multi_byte_rotating_xor_def a1 a2 len sched_def)
qed

lemma multi_byte_rotating_xor_content:
  assumes valid: "data < length s" "key < length s"
      and nonempty: "content s data \<noteq> []" "content s key \<noteq> []"
      and bits: "0 \<le> bits" "bits \<le> 8"
      and apart: "data \<noteq> key \<or> is_bytes (s ! data) \<or> is_bytes (s ! key)"
  shows "\<exists>s' d. multi_byte_rotating_xor s data key bits = (s', Inr d) \<and>
           d = (if is_bytes (s ! data) then length s else data) \<and>
           d < length s' \<and> length s \<le> length s' \<and>
           content s' d = fst (multi_rotating_schedule (nat bits) (content s data) (content s key) 0) \<and>
           (\<forall>r < length s. is_bytes (s ! r) \<longrightarrow> s' ! r = s ! r)"
proof -
  define s1 where "s1 = (if is_bytes (s ! data) then s @ [Bytearray (content s data)] else s)"
  define d where "d = (if is_bytes (s ! data) then length s else data)"
  define s2 where "s2 = (if is_bytes (s ! key) then s1 @ [Bytearray (content s key)] else s1)"
  define kr where "kr = (if is_bytes (s ! key) then length s1 else key)"
  define sched where
    "sched = multi_rotating_schedule (nat bits) (content s data) (content s key) 0"
  define s' where "s' = s2[d := Bytearray (fst sched), kr := Bytearray (snd sched)]"
  have res: "multi_byte_rotating_xor s data key bits = (s', Inr d)"
    using multi_byte_rotating_xor_result [OF assms]
    by (simp add: s'_def s1_def d_def s2_def kr_def sched_def)
  have dk: "d \<noteq> kr" using valid apart by (auto simp: d_def kr_def s1_def)
  have dl: "d < length s'" using valid by (simp add: s'_def d_def s2_def s1_def)
  have ll: "length s \<le> length s'" by (simp add: s'_def s2_def s1_def)
  have c: "content s' d = fst sched"
    using dk dl by (simp add: s'_def content_def)
  have frame: "s' ! r = s ! r" if "r < length s" "is_bytes (s ! r)" for r
  proof -
    have "r \<noteq> d" using that by (auto simp: d_def)
    moreover have "r \<noteq> kr" using that by (auto simp: kr_def s1_def)
    ultimately show ?thesis using that(1) by (simp add: s'_def s2_def s1_def nth_append)
  qed
  show ?thesis using res dl ll c frame d_def unfolding sched_def by blast
qed

lemma length_multi_rotating_schedule:
  "length (fst (multi_rotating_schedule b xs key k)) = length xs"
  by (induction xs arbitrary: key k) (simp_all add: case_prod_beta)

lemma multi_rotating_schedule_involution:
  "fst (multi_rotating_schedule b (fst (multi_rotating_schedule b xs key k)) key k) = xs"
  by (induction xs arbitrary: key k) (simp_all add: case_prod_beta xor.assoc)

lemma multi_byte_rolling_loop_schedule:
  assumes "d \<noteq> kr" "d < length s" "kr < length s"
  shows "s ! d = Bytearray (pre @ xs) \<Longrightarrow> s ! kr = Bytearray key \<Longrightarrow>
         multi_byte_rolling_loop d kr (length pre) k (length xs) s =
           s[d := Bytearray (pre @ fst (rolling_schedule xs key k)),
             kr := Bytearray (snd (rolling_schedule xs key k))]"
  using assms(2,3)
proof (induction xs arbitrary: pre key k s)
  case Nil
  then show ?case by (simp add: update_both_same)
next
  case (Cons x xs)
  let ?s1 = "s[d := Bytearray (pre @ (x XOR key ! k) # xs)]"
  let ?key' = "key[k := x]"
  let ?s2 = "?s1[kr := Bytearray ?key']"
  have x: "content s d ! length pre = x" using Cons.prems by (simp add: content_def)
  have s1: "poke s d (length pre) (x XOR content s kr ! k) = ?s1"
    using Cons.prems by (simp add: poke_def content_def)
  have s2: "poke ?s1 kr k x = ?s2"
    using Cons.prems assms(1) by (simp add: poke_def content_def)
  have len: "length (content ?s2 kr) = length key"
    using Cons.prems by (simp add: content_def)
  have d2: "?s2 ! d = Bytearray ((pre @ [x XOR key ! k]) @ xs)"
    using Cons.prems assms(1) by simp
  have k2: "?s2 ! kr = Bytearray ?key'" using Cons.prems by simp
  have "d < length ?s2" "kr < length ?s2" using Cons.prems by simp_all
  from Cons.IH [OF d2 k2 this, of "next_slot (length key) k"]
  show ?case
    using assms(1)
    by (simp add: x s1 s2 len next_slot_def update_twice Let_def case_prod_beta)
qed

lemma multi_byte_rolling_xor_result:
  assumes valid: "data < length s" "key < length s"
      and nonempty: "content s data \<noteq> []" "content s key \<noteq> []"
      and apart: "data \<noteq> key \<or> is_bytes (s ! data) \<or> is_bytes (s ! key)"
  defines "s1 \<equiv> if is_bytes (s ! data) then s @ [Bytearray (content s data)] else s"
      and "d \<equiv> if is_bytes (s ! data) then length s else data"
  defines "s2 \<equiv> if is_bytes (s ! key) then s1 @ [Bytearray (content s key)] else s1"
      and "kr \<equiv> if is_bytes (s ! key) then length s1 else key"
  defines "sched \<equiv> rolling_schedule (content s data) (content s key) 0"
  shows "multi_byte_rolling_xor s data key =
           (s2[d := Bytearray (fst sched), kr := Bytearray (snd sched)], Inr d)"
proof -
  have a1: "as_bytearray s data = (d, s1)"
    by (simp add: as_bytearray_def alloc_def d_def s1_def)
  have key1: "s1 ! key = s ! key" using valid by (simp add: s1_def nth_append)
  have a2: "as_bytearray s1 key = (kr, s2)"
    by (simp add: as_bytearray_def alloc_def kr_def s2_def key1 content_def)
  have dk: "d \<noteq> kr" using valid apart by (auto simp: d_def kr_def s1_def)
  have dl: "d < length s2" using valid by (simp add: d_def s2_def s1_def)
  have kl: "kr < length s2" using valid by (simp add: kr_def s2_def s1_def)
  have dv: "s2 ! d = Bytearray ([] @ content s data)"
    using valid by (cases "s ! data") (auto simp: d_def s2_def s1_def nth_append content_def)
  have kv: "s2 ! kr = Bytearray (content s key)"
    using valid by (cases "s ! key") (auto simp: kr_def s2_def s1_def nth_append content_def)
  have len: "length (content s2 d) = length (content s data)"
    using dv by (simp add: content_def)
  from multi_byte_rolling_loop_schedule [OF dk dl kl dv kv, of 0]
  show ?thesis using nonempty
    by (simp add: multi_byte_rolling_xor_def a1 a2 len sched_def)
qed

text \<open>What the caller's key object holds after the call.\<close>

lemma rolling_key_after:
  assumes "data < length s" "key < length s" "data \<noteq> key"
      and "content s data \<noteq> []" "content s key \<noteq> []"
  shows "fst (multi_byte_rolling_xor s data key) ! key =
           (if is_bytes (s ! key) then s ! key
            else Bytearray (snd (rolling_schedule (content s data) (content s key) 0)))"
  using assms
  by (simp add: multi_byte_rolling_xor_result nth_append)

lemma rotating_key_after:
  assumes "data < length s" "key < length s" "data \<noteq> key"
      and "content s data \<noteq> []" "content s key \<noteq> []" "0 \<le> bits" "bits \<le> 8"
  shows "fst (multi_byte_rotating_xor s data key bits) ! key =
           (if is_bytes (s ! key) then s ! key
            else Bytearray (snd (multi_rotating_schedule (nat bits) (content s data) (content s key) 0)))"
  using assms
  by (simp add: multi_byte_rotating_xor_result nth_append)

lemma rolling_schedule_short:
  "k + length xs \<le> length key \<Longrightarrow>
   snd (rolling_schedule xs key k) = take k key @ xs @ drop (k + length xs) key"
proof (induction xs arbitrary: key k)
  case Nil
  then show ?case by simp
next
  case (Cons x xs)
  have k: "k < length key" using Cons.prems by simp
  show ?case
  proof (cases "k + 1 = length key")
    case True
    moreover have "k + Suc (length xs) \<le> length key" using Cons.prems by simp
    ultimately have "\<not> 0 < length xs" by linarith
    then have "xs = []" by simp
    then show ?thesis using True k
      by (simp add: next_slot_def upd_conv_take_nth_drop)
  next
    case False
    have "Suc k + length xs \<le> length (key[k := x])" using Cons.prems by simp
    from Cons.IH [OF this] show ?thesis using False k
      by (simp add: next_slot_def case_prod_beta take_Suc_conv_app_nth)
  qed
qed

lemma multi_rotating_schedule_short:
  "k + length xs \<le> length key \<Longrightarrow>
   snd (multi_rotating_schedule b xs key k) =
     take k key @ map (rotate_byte b) (take (length xs) (drop k key)) @ drop (k + length xs) key"
proof (induction xs arbitrary: key k)
  case Nil
  then show ?case by simp
next
  case (Cons x xs)
  have k: "k < length key" using Cons.prems by simp
  show ?case
  proof (cases "k + 1 = length key")
    case True
    moreover have "k + Suc (length xs) \<le> length key" using Cons.prems by simp
    ultimately have "\<not> 0 < length xs" by linarith
    then have "xs = []" by simp
    then show ?thesis using True k
      by (simp add: next_slot_def upd_conv_take_nth_drop take_Suc_conv_app_nth Cons_nth_drop_Suc [symmetric])
  next
    case False
    have "Suc k + length xs \<le> length (key[k := rotate_byte b (key ! k)])" using Cons.prems by simp
    from Cons.IH [OF this] show ?thesis using False k
      by (simp add: next_slot_def case_prod_beta take_Suc_conv_app_nth Cons_nth_drop_Suc [symmetric])
  qed
qed

lemma length_rolling_schedule:
  "length (fst (rolling_schedule xs key k)) = length xs"
  "length (snd (rolling_schedule xs key k)) = length key"
  by (induction xs arbitrary: key k) (simp_all add: case_prod_beta)

lemma length_multi_rotating_schedule_key:
  "length (snd (multi_rotating_schedule b xs key k)) = length key"
  by (induction xs arbitrary: key k) (simp_all add: case_prod_beta)

lemma multi_byte_rolling_xor_content:
  assumes valid: "data < length s" "key < length s"
      and nonempty: "content s data \<noteq> []" "content s key \<noteq> []"
      and apart: "data \<noteq> key \<or> is_bytes (s ! data) \<or> is_bytes (s ! key)"
  shows "\<exists>s' d. multi_byte_rolling_xor s data key = (s', Inr d) \<and>
           d = (if is_bytes (s ! data) then length s else data) \<and>
           d < length s' \<and> length s \<le> length s' \<and>
           content s' d = fst (rolling_schedule (content s data) (content s key) 0) \<and>
           (\<forall>r < length s. is_bytes (s ! r) \<longrightarrow> s' ! r = s ! r)"
proof -
  define s1 where "s1 = (if is_bytes (s ! data) then s @ [Bytearray (content s data)] else s)"
  define d where "d = (if is_bytes (s ! data) then length s else data)"
  define s2 where "s2 = (if is_bytes (s ! key) then s1 @ [Bytearray (content s key)] else s1)"
  define kr where "kr = (if is_bytes (s ! key) then length s1 else key)"
  define sched where "sched = rolling_schedule (content s data) (content s key) 0"
  define s' where "s' = s2[d := Bytearray (fst sched), kr := Bytearray (snd sched)]"
  have res: "multi_byte_rolling_xor s data key = (s', Inr d)"
    using multi_byte_rolling_xor_result [OF assms]
    by (simp add: s'_def s1_def d_def s2_def kr_def sched_def)
  have dk: "d \<noteq> kr" using valid apart by (auto simp: d_def kr_def s1_def)
  have dl: "d < length s'" using valid by (simp add: s'_def d_def s2_def s1_def)
  have ll: "length s \<le> length s'" by (simp add: s'_def s2_def s1_def)
  have c: "content s' d = fst sched"
    using dk dl by (simp add: s'_def content_def)
  have frame: "s' ! r = s ! r" if "r < length s" "is_bytes (s ! r)" for r
  proof -
    have "r \<noteq> d" using that by (auto simp: d_def)
    moreover have "r \<noteq> kr" using that by (auto simp: kr_def s1_def)
    ultimately show ?thesis using that(1) by (simp add: s'_def s2_def s1_def nth_append)
  qed
  show ?thesis using res dl ll c frame d_def unfolding sched_def by blast
qed

lemma rotating_twice_result:
  assumes "data < length s" "key < length s" "data \<noteq> key"
      and "content s data \<noteq> []" "content s key \<noteq> []" "0 \<le> bits" "bits \<le> 8"
  shows "returned (rotating_twice s data key bits) =
           Inr (fst (multi_rotating_schedule (nat bits)
                  (fst (multi_rotating_schedule (nat bits) (content s data) (content s key) 0))
                  (if is_bytes (s ! key) then content s key
                   else snd (multi_rotating_schedule (nat bits) (content s data) (content s key) 0))
                  0))"
proof -
  let ?sched = "multi_rotating_schedule (nat bits) (content s data) (content s key) 0"
  from multi_byte_rotating_xor_content [of data s key bits] assms
  obtain s' d where first: "multi_byte_rotating_xor s data key bits = (s', Inr d)"
    and d: "d = (if is_bytes (s ! data) then length s else data)"
    and dl: "d < length s'" and ll: "length s \<le> length s'"
    and out: "content s' d = fst ?sched"
    by blast
  have key': "s' ! key = (if is_bytes (s ! key) then s ! key else Bytearray (snd ?sched))"
    using rotating_key_after [OF assms] first by simp
  then have ck: "content s' key = (if is_bytes (s ! key) then content s key else snd ?sched)"
    by (simp add: content_def)
  have dk: "d \<noteq> key" using assms(2,3) d by auto
  have ne1: "content s' d \<noteq> []"
    using assms(4) length_multi_rotating_schedule [of "nat bits" "content s data" "content s key" 0]
    unfolding out by auto
  have ne2: "content s' key \<noteq> []"
    using assms(5) length_multi_rotating_schedule_key [of "nat bits" "content s data" "content s key" 0]
    unfolding ck by auto
  have kl: "key < length s'" using assms(2) ll by simp
  from multi_byte_rotating_xor_content [of d s' key bits] dl kl ne1 ne2 assms(6,7) dk
  obtain s'' r where "multi_byte_rotating_xor s' d key bits = (s'', Inr r)"
    and "content s'' r = fst (multi_rotating_schedule (nat bits) (content s' d) (content s' key) 0)"
    by blast
  then show ?thesis
    by (simp add: rotating_twice_def returned_def first out ck)
qed

lemma rolling_twice_result:
  assumes "data < length s" "key < length s" "data \<noteq> key"
      and "content s data \<noteq> []" "content s key \<noteq> []"
  shows "returned (rolling_twice s data key) =
           Inr (fst (rolling_schedule
                  (fst (rolling_schedule (content s data) (content s key) 0))
                  (if is_bytes (s ! key) then content s key
                   else snd (rolling_schedule (content s data) (content s key) 0))
                  0))"
proof -
  let ?sched = "rolling_schedule (content s data) (content s key) 0"
  from multi_byte_rolling_xor_content [of data s key] assms
  obtain s' d where first: "multi_byte_rolling_xor s data key = (s', Inr d)"
    and d: "d = (if is_bytes (s ! data) then length s else data)"
    and dl: "d < length s'" and ll: "length s \<le> length s'"
    and out: "content s' d = fst ?sched"
    by blast
  have key': "s' ! key = (if is_bytes (s ! key) then s ! key else Bytearray (snd ?sched))"
    using rolling_key_after [OF assms] first by simp
  then have ck: "content s' key = (if is_bytes (s ! key) then content s key else snd ?sched)"
    by (simp add: content_def)
  have dk: "d \<noteq> key" using assms(2,3) d by auto
  have ne1: "content s' d \<noteq> []"
    using assms(4) length_rolling_schedule(1) [of "content s data" "content s key" 0]
    unfolding out by auto
  have ne2: "content s' key \<noteq> []"
    using assms(5) length_rolling_schedule(2) [of "content s data" "content s key" 0]
    unfolding ck by auto
  have kl: "key < length s'" using assms(2) ll by simp
  from multi_byte_rolling_xor_content [of d s' key] dl kl ne1 ne2 dk
  obtain s'' r where "multi_byte_rolling_xor s' d key = (s'', Inr r)"
    and "content s'' r = fst (rolling_schedule (content s' d) (content s' key) 0)"
    by blast
  then show ?thesis
    by (simp add: rolling_twice_def returned_def first out ck)
qed

lemma rotating_twice_bytes_key:
  assumes "data < length s" "key < length s" "data \<noteq> key" "is_bytes (s ! key)"
      and "content s data \<noteq> []" "content s key \<noteq> []" "0 \<le> bits" "bits \<le> 8"
  shows "returned (rotating_twice s data key bits) = Inr (content s data)"
  using rotating_twice_result [OF assms(1-3,5-8)] assms(4)
  by (simp add: multi_rotating_schedule_involution)

subsection \<open>\<^verbatim>\<open>unmunge\<close>: the shortest blob\<close>

lemma unmunge_short:
  "length (content s blob) \<le> 4 \<Longrightarrow> snd (unmunge s blob) = Inl MungerException"
  by (simp add: unmunge_def alloc_def multi_byte_rotating_xor_def content_def same_type_def
        nth_append)

lemma unmunge_long:
  assumes "5 \<le> length (content s blob)"
  shows "\<exists>s' r. unmunge s blob = (s', Inr r) \<and> r < length s' \<and>
           content s' r =
             fst (multi_rotating_schedule 3 (drop 4 (content s blob)) (take 4 (content s blob)) 0)"
proof -
  let ?p = "same_type (s ! blob) (drop 4 (content s blob))"
  let ?k = "same_type (s ! blob) (take 4 (content s blob))"
  let ?s2 = "s @ [?p, ?k]"
  have u: "unmunge s blob = multi_byte_rotating_xor ?s2 (length s) (Suc (length s)) 3"
    by (simp add: unmunge_def alloc_def)
  have cp: "content ?s2 (length s) = drop 4 (content s blob)"
    by (simp add: content_def same_type_def)
  have ck: "content ?s2 (Suc (length s)) = take 4 (content s blob)"
    by (simp add: content_def same_type_def nth_append)
  have "\<exists>s' d. multi_byte_rotating_xor ?s2 (length s) (Suc (length s)) 3 = (s', Inr d) \<and>
           d = (if is_bytes (?s2 ! length s) then length ?s2 else length s) \<and>
           d < length s' \<and> length ?s2 \<le> length s' \<and>
           content s' d = fst (multi_rotating_schedule (nat 3) (content ?s2 (length s))
                                 (content ?s2 (Suc (length s))) 0) \<and>
           (\<forall>r < length ?s2. is_bytes (?s2 ! r) \<longrightarrow> s' ! r = ?s2 ! r)"
    using assms by (intro multi_byte_rotating_xor_content) (auto simp: cp ck)
  then show ?thesis unfolding u cp ck by auto
qed

text \<open>
  Claim C9. For every blob of exactly 4 bytes \<^verbatim>\<open>unmunge\<close> raises the typed invalid-input
  error \<^verbatim>\<open>MungerException\<close>: the four bytes are the key, the payload \<^verbatim>\<open>data[4:]\<close> is
  empty, and the transform rejects empty data. The same holds for every shorter blob, so
  \<^verbatim>\<open>unmunge\<close> succeeds exactly on the blobs of at least 5 bytes.
\<close>

theorem unmunge_needs_five:
  "(length (content s blob) \<le> 4 \<longrightarrow> snd (unmunge s blob) = Inl MungerException) \<and>
   (5 \<le> length (content s blob) \<longrightarrow> (\<exists>r. snd (unmunge s blob) = Inr r))"
proof (intro conjI impI)
  assume "length (content s blob) \<le> 4"
  then show "snd (unmunge s blob) = Inl MungerException" by (rule unmunge_short)
next
  assume "5 \<le> length (content s blob)"
  from unmunge_long [OF this] show "\<exists>r. snd (unmunge s blob) = Inr r" by auto
qed

theorem unmunge_needs_five_witness:
  "snd (unmunge [Bytes [1, 2, 3, 4]] 0) = Inl MungerException \<and>
   (\<exists>r. snd (unmunge [Bytes [1, 2, 3, 4, 5]] 0) = Inr r)"
  using unmunge_needs_five [of "[Bytes [1, 2, 3, 4]]" 0]
        unmunge_needs_five [of "[Bytes [1, 2, 3, 4, 5]]" 0]
  by (simp add: content_def)

subsection \<open>\<^verbatim>\<open>munge\<close> and \<^verbatim>\<open>unmunge\<close>: the round trip\<close>

text \<open>
  Claim C1. For every non-empty buffer \<open>x\<close>, \<^verbatim>\<open>unmunge(munge(x))\<close> is \<open>x\<close>: \<^verbatim>\<open>munge\<close>
  draws a 4-byte key, applies the multi-byte rotating XOR of width 3 and returns
  \<open>key || transformed\<close>; \<^verbatim>\<open>unmunge\<close> takes the first 4 bytes as the key, applies the
  same transform to the rest, and returns a buffer whose contents are the contents \<open>x\<close>
  had when \<^verbatim>\<open>munge\<close> was called. Both calls succeed.
\<close>

theorem munge_unmunge:
  assumes "data < length s" and "content s data \<noteq> []"
  shows "\<exists>s1 e1 blob s2 r.
           munge s data e = ((s1, e1), Inr blob) \<and>
           content s1 blob =
             map e [0..<4] @ fst (multi_rotating_schedule 3 (content s data) (map e [0..<4]) 0) \<and>
           unmunge s1 blob = (s2, Inr r) \<and>
           content s2 r = content s data"
proof -
  let ?drawn = "map e [0..<4]"
  let ?e' = "\<lambda>i. e (4 + i)"
  let ?sk = "s @ [Bytes ?drawn]"
  let ?out = "fst (multi_rotating_schedule 3 (content s data) ?drawn 0)"
  have u: "urandom 4 e = (Inr ?drawn, ?e')" by (simp add: urandom_def)
  have cd: "content ?sk data = content s data"
    using assms(1) by (simp add: content_def nth_append)
  have ck: "content ?sk (length s) = ?drawn" by (simp add: content_def)
  have "\<exists>s' d. multi_byte_rotating_xor ?sk data (length s) 3 = (s', Inr d) \<and>
           d = (if is_bytes (?sk ! data) then length ?sk else data) \<and>
           d < length s' \<and> length ?sk \<le> length s' \<and>
           content s' d = fst (multi_rotating_schedule (nat 3) (content ?sk data)
                                 (content ?sk (length s)) 0) \<and>
           (\<forall>r < length ?sk. is_bytes (?sk ! r) \<longrightarrow> s' ! r = ?sk ! r)"
    using assms by (intro multi_byte_rotating_xor_content) (auto simp: cd ck)
  then obtain s' d where t: "multi_byte_rotating_xor ?sk data (length s) 3 = (s', Inr d)"
    and out: "content s' d = ?out"
    and frame: "\<forall>r < length ?sk. is_bytes (?sk ! r) \<longrightarrow> s' ! r = ?sk ! r"
    unfolding cd ck by auto
  have key: "content s' (length s) = ?drawn"
    using frame by (simp add: content_def)
  let ?s1 = "s' @ [Bytes (?drawn @ ?out)]"
  have m: "munge s data e = ((?s1, ?e'), Inr (length s'))"
    by (simp add: munge_def u alloc_def t key out)
  have blob: "content ?s1 (length s') = ?drawn @ ?out" by (simp add: content_def)
  have "length (content ?s1 (length s')) = 4 + length (content s data)"
    unfolding blob by (simp add: length_multi_rotating_schedule)
  moreover have "length (content s data) \<noteq> 0" using assms(2) by simp
  ultimately have "5 \<le> length (content ?s1 (length s'))" by linarith
  from unmunge_long [OF this] obtain s2 r where
    un: "unmunge ?s1 (length s') = (s2, Inr r)" and
    r: "content s2 r = fst (multi_rotating_schedule 3 (drop 4 (content ?s1 (length s')))
                              (take 4 (content ?s1 (length s'))) 0)"
    by blast
  have "content s2 r = content s data"
    unfolding r blob by (simp add: multi_rotating_schedule_involution)
  with m blob un show ?thesis by blast
qed

theorem munge_unmunge_witness:
  "\<exists>s1 e1 blob s2 r.
     munge [Bytes [10, 20, 30, 40, 50]] 0 counting_entropy = ((s1, e1), Inr blob) \<and>
     content s1 blob = [0, 1, 2, 3, 10, 21, 28, 43, 50] \<and>
     unmunge s1 blob = (s2, Inr r) \<and>
     content s2 r = [10, 20, 30, 40, 50]"
proof -
  have c: "content [Bytes [10, 20, 30, 40, 50]] 0 = [10, 20, 30, 40, 50]"
    by (simp add: content_def)
  have d: "map counting_entropy [0..<4] = [0, 1, 2, 3]" by code_simp
  have o: "fst (multi_rotating_schedule 3 [10, 20, 30, 40, 50] [0, 1, 2, 3] 0) = [10, 21, 28, 43, 50]"
    by code_simp
  show ?thesis
    using munge_unmunge [of 0 "[Bytes [10, 20, 30, 40, 50]]" counting_entropy]
    unfolding c d o by simp
qed

text \<open>
  The equality is one of contents. A payload passed to \<^verbatim>\<open>munge\<close> as a \<^verbatim>\<open>bytearray\<close> is
  transformed in place: after the call the caller's object holds the transformed bytes.
\<close>

lemma munge_overwrites_bytearray:
  "content (fst (fst (munge [Bytearray [10, 20, 30, 40, 50]] 0 counting_entropy))) 0 =
     [10, 21, 28, 43, 50]"
  by code_simp

subsection \<open>The caller's key object\<close>

text \<open>
  Claim C10. \<^verbatim>\<open>multi_byte_rolling_xor\<close> and \<^verbatim>\<open>multi_byte_rotating_xor\<close> write into a key
  that is passed as a \<^verbatim>\<open>bytearray\<close>: after the call the caller's key object holds the key
  as the schedule left it, each slot used overwritten with the input byte it masked,
  or with its rotated value (\<open>rolling_schedule_short\<close>, \<open>multi_rotating_schedule_short\<close>).
  A key passed as \<^verbatim>\<open>bytes\<close> is copied and the caller's object is unchanged. So a second
  call with the same \<^verbatim>\<open>bytearray\<close> key starts from the key the first call left
  (\<open>rolling_twice_result\<close>, \<open>rotating_twice_result\<close>) and does not give back the data:
  from \<^verbatim>\<open>b'\x01\x02\x03'\<close> with the key \<^verbatim>\<open>bytearray(b'\x07\x08\x09')\<close> the rolling
  transform applied twice returns \<^verbatim>\<open>b'\x07\x08\x09'\<close>, and the rotating transform
  applied twice returns the bytes 230, 11, 43.
\<close>

theorem key_mutated_in_place:
  assumes "data < length s" "key < length s" "data \<noteq> key"
      and "content s data \<noteq> []" "content s key \<noteq> []" "0 \<le> bits" "bits \<le> 8"
  shows "fst (multi_byte_rolling_xor s data key) ! key =
           (if is_bytes (s ! key) then s ! key
            else Bytearray (snd (rolling_schedule (content s data) (content s key) 0))) \<and>
         fst (multi_byte_rotating_xor s data key bits) ! key =
           (if is_bytes (s ! key) then s ! key
            else Bytearray (snd (multi_rotating_schedule (nat bits)
                                   (content s data) (content s key) 0))) \<and>
         returned (rolling_twice [Bytes [1, 2, 3], Bytearray [7, 8, 9]] 0 1) = Inr [7, 8, 9] \<and>
         returned (rotating_twice [Bytes [1, 2, 3], Bytearray [7, 8, 9]] 0 1 3) = Inr [230, 11, 43]"
proof (intro conjI)
  show "fst (multi_byte_rolling_xor s data key) ! key =
           (if is_bytes (s ! key) then s ! key
            else Bytearray (snd (rolling_schedule (content s data) (content s key) 0)))"
    by (rule rolling_key_after [OF assms(1-5)])
  show "fst (multi_byte_rotating_xor s data key bits) ! key =
           (if is_bytes (s ! key) then s ! key
            else Bytearray (snd (multi_rotating_schedule (nat bits)
                                   (content s data) (content s key) 0)))"
    by (rule rotating_key_after [OF assms])
  show "returned (rolling_twice [Bytes [1, 2, 3], Bytearray [7, 8, 9]] 0 1) = Inr [7, 8, 9]"
    by code_simp
  show "returned (rotating_twice [Bytes [1, 2, 3], Bytearray [7, 8, 9]] 0 1 3) = Inr [230, 11, 43]"
    by code_simp
qed

theorem key_mutated_in_place_witness:
  "fst (multi_byte_rolling_xor [Bytes [1, 2, 3], Bytearray [7, 8, 9]] 0 1) ! 1 = Bytearray [1, 2, 3] \<and>
   fst (multi_byte_rotating_xor [Bytes [1, 2, 3], Bytearray [7, 8, 9]] 0 1 3) ! 1 =
     Bytearray [224, 1, 33] \<and>
   fst (multi_byte_rolling_xor [Bytes [1, 2, 3], Bytes [7, 8, 9]] 0 1) ! 1 = Bytes [7, 8, 9] \<and>
   fst (multi_byte_rotating_xor [Bytes [1, 2, 3], Bytes [7, 8, 9]] 0 1 3) ! 1 = Bytes [7, 8, 9]"
proof -
  have r: "snd (rolling_schedule [1, 2, 3] [7, 8, 9] 0) = [1, 2, 3]" by code_simp
  have t: "snd (multi_rotating_schedule (nat 3) [1, 2, 3] [7, 8, 9] 0) = [224, 1, 33]"
    by code_simp
  have "fst (multi_byte_rolling_xor [Bytes [1, 2, 3], Bytearray [7, 8, 9]] 0 1) ! 1 =
          Bytearray (snd (rolling_schedule [1, 2, 3] [7, 8, 9] 0)) \<and>
        fst (multi_byte_rotating_xor [Bytes [1, 2, 3], Bytearray [7, 8, 9]] 0 1 3) ! 1 =
          Bytearray (snd (multi_rotating_schedule (nat 3) [1, 2, 3] [7, 8, 9] 0))"
    using key_mutated_in_place [of 0 "[Bytes [1, 2, 3], Bytearray [7, 8, 9]]" 1 3]
    by (simp add: content_def del: rolling_schedule.simps multi_rotating_schedule.simps)
  moreover
  have "fst (multi_byte_rolling_xor [Bytes [1, 2, 3], Bytes [7, 8, 9]] 0 1) ! 1 = Bytes [7, 8, 9] \<and>
        fst (multi_byte_rotating_xor [Bytes [1, 2, 3], Bytes [7, 8, 9]] 0 1 3) ! 1 = Bytes [7, 8, 9]"
    using key_mutated_in_place [of 0 "[Bytes [1, 2, 3], Bytes [7, 8, 9]]" 1 3]
    by (simp add: content_def del: rolling_schedule.simps multi_rotating_schedule.simps)
  ultimately show ?thesis unfolding r t by blast
qed

end
